theory Spec2Isabelle
  imports Main "HOL-Library.AList" "HOL-Library.Multiset"
begin

section \<open>Python values used by the word trie\<close>

text \<open>
  Exceptions the modelled Python code can raise are values of \<open>error\<close>; a fallible
  function returns \<open>error + 'a\<close> with \<open>Inl\<close> for the exception.
\<close>

datatype error = ValueError | IndexError | KeyError | StopIteration

subsection \<open>\<open>str.join\<close> and \<open>str.split\<close>\<close>

text \<open>\<open>sep.join(words)\<close>.\<close>

fun str_join :: "string \<Rightarrow> string list \<Rightarrow> string" where
  "str_join sep [] = []"
| "str_join sep [w] = w"
| "str_join sep (w # v # ws) = w @ sep @ str_join sep (v # ws)"

text \<open>
  \<open>s.split(sep)\<close> scans \<open>s\<close> from the left for non-overlapping occurrences of the
  separator; \<open>acc\<close> is the word collected since the last occurrence. An empty separator
  raises \<open>ValueError\<close>.
\<close>

function split_scan :: "string \<Rightarrow> string \<Rightarrow> string \<Rightarrow> string list" where
  "split_scan sep acc [] = [acc]"
| "split_scan sep acc (c # cs) =
     (if sep \<noteq> [] \<and> take (length sep) (c # cs) = sep
      then acc # split_scan sep [] (drop (length sep) (c # cs))
      else split_scan sep (acc @ [c]) cs)"
  by pat_completeness auto
termination
  by (relation "measure (\<lambda>(sep, acc, s). length s)") auto

definition str_split :: "string \<Rightarrow> string \<Rightarrow> error + string list" where
  "str_split sep s = (if sep = [] then Inl ValueError else Inr (split_scan sep [] s))"

section \<open>The word trie (\<open>words/word_trie.py\<close>)\<close>

text \<open>
  \<open>WordTrieNode\<close>: the children dictionary is an association list in insertion order,
  which is the iteration order of a Python \<open>dict\<close>. The attribute \<open>text\<close> is the
  selector \<open>node_text\<close>.
\<close>

datatype node =
  WordTrieNode (word: string) (node_text: string) (is_full_name: bool)
    (children: "(string \<times> node) list")

definition is_root :: "node \<Rightarrow> bool" where
  "is_root n = (word n = [])"

definition is_branching_point :: "node \<Rightarrow> bool" where
  "is_branching_point n = (length (children n) > 1)"

definition is_leaf :: "node \<Rightarrow> bool" where
  "is_leaf n = (children n = [])"

record word_trie =
  root :: node
  word_delimiter :: string

definition DEFAULT_WORD_DELIMITER :: string where
  "DEFAULT_WORD_DELIMITER = ''_''"

text \<open>\<open>WordTrie.__init__\<close>.\<close>

definition new_trie :: "string \<Rightarrow> word_trie" where
  "new_trie d = \<lparr>root = WordTrieNode [] [] False [], word_delimiter = d\<rparr>"

text \<open>
  The loop of \<open>insert_name\<close>: \<open>i\<close> is the counter of \<open>enumerate(words, 1)\<close>, the fourth
  argument the words still to visit. A node that is found is kept in its place in the
  dictionary; a new one is stored under its word at the end. After the last word the
  node reached is marked as a full name.
\<close>

fun insert_words :: "string \<Rightarrow> string list \<Rightarrow> nat \<Rightarrow> string list \<Rightarrow> node \<Rightarrow> node" where
  "insert_words d words i [] (WordTrieNode w t f cs) = WordTrieNode w t True cs"
| "insert_words d words i (wd # rest) (WordTrieNode w t f cs) =
     (let child_node =
        (case map_of cs wd of
           Some c \<Rightarrow> c
         | None \<Rightarrow> WordTrieNode wd (str_join d (take i words)) False [])
      in WordTrieNode w t f
           (AList.update wd (insert_words d words (Suc i) rest child_node) cs))"

definition insert_name :: "string \<Rightarrow> word_trie \<Rightarrow> error + word_trie" where
  "insert_name name t =
     (case str_split (word_delimiter t) name of
        Inl e \<Rightarrow> Inl e
      | Inr words \<Rightarrow> Inr (t\<lparr>root := insert_words (word_delimiter t) words 1 words (root t)\<rparr>))"

fun insert_all :: "string list \<Rightarrow> word_trie \<Rightarrow> error + word_trie" where
  "insert_all [] t = Inr t"
| "insert_all (name # names) t =
     (case insert_name name t of Inl e \<Rightarrow> Inl e | Inr t' \<Rightarrow> insert_all names t')"

definition from_names :: "string list \<Rightarrow> string \<Rightarrow> error + word_trie" where
  "from_names names d = insert_all names (new_trie d)"

subsection \<open>Grouping\<close>

type_synonym branches = "string list list"
type_synonym groups = "(string \<times> string list) list"

text \<open>
  \<open>grouped_names[k].extend(xs)\<close> on the \<open>defaultdict(list)\<close>: a missing key is created
  with the empty list first.
\<close>

definition dict_extend :: "string \<Rightarrow> string list \<Rightarrow> groups \<Rightarrow> groups" where
  "dict_extend k xs g = AList.update k ((case map_of g k of None \<Rightarrow> [] | Some v \<Rightarrow> v) @ xs) g"

text \<open>
  The loop \<open>for branch in reversed(sub_branches)\<close>, which removes from the list it
  iterates. The reverse iterator holds an index; \<open>absorb (Suc i)\<close> is the iterator at
  index \<open>i\<close>, which stops when the index is past the end of the (shrunk) list.
  \<open>branch[0]\<close> raises \<open>IndexError\<close> on an empty branch and \<open>remove\<close> raises
  \<open>ValueError\<close> when no element equals the branch; it removes the first equal element.
\<close>

fun absorb :: "nat \<Rightarrow> branches \<Rightarrow> groups \<Rightarrow> error + (branches \<times> groups)" where
  "absorb 0 sub g = Inr (sub, g)"
| "absorb (Suc i) sub g =
     (if i < length sub then
        (let branch = sub ! i in
         if length branch > 1 then
           (case branch of
              [] \<Rightarrow> Inl IndexError
            | group_name # _ \<Rightarrow>
                if branch \<in> set sub
                then absorb i (remove1 branch sub) (dict_extend group_name branch g)
                else Inl ValueError)
         else absorb i sub g)
      else Inr (sub, g))"

text \<open>
  What a branching point does with the collected sub-branches once its children have
  been visited: the three cases after the absorbing loop.
\<close>

definition resolve :: "node \<Rightarrow> branches \<Rightarrow> branches \<Rightarrow> groups \<Rightarrow> branches \<times> groups" where
  "resolve n sub current_branches g =
     (if is_root n then
        (current_branches, fold (\<lambda>full_name. dict_extend full_name [full_name]) (concat sub) g)
      else if is_full_name n \<or> length sub > 1 then
        (current_branches,
         dict_extend (node_text n) (concat sub)
           (if is_full_name n then dict_extend (node_text n) [node_text n] g else g))
      else (current_branches @ sub, g))"

text \<open>
  The inner \<open>_group_names\<close>. It returns the caller's \<open>current_branches\<close> and the
  dictionary \<open>grouped_names\<close> as they are after the call. \<open>current_branch\<close> is read
  by nobody after the call except through \<open>current_branches\<close>, so it is not returned.
  \<open>group_children\<close> is the loop over \<open>node.children.values()\<close>.
\<close>

function (sequential)
  group_names_rec :: "node \<Rightarrow> string list \<Rightarrow> branches \<Rightarrow> groups \<Rightarrow> error + (branches \<times> groups)"
  and group_children :: "(string \<times> node) list \<Rightarrow> branches \<Rightarrow> groups \<Rightarrow> error + (branches \<times> groups)"
where
  "group_names_rec (WordTrieNode w t f cs) current_branch current_branches g =
     (if is_branching_point (WordTrieNode w t f cs) then
        (case group_children cs [] g of
           Inl e \<Rightarrow> Inl e
         | Inr (sub_branches, g1) \<Rightarrow>
             (case absorb (length sub_branches) sub_branches g1 of
                Inl e \<Rightarrow> Inl e
              | Inr (remaining, g2) \<Rightarrow>
                  Inr (resolve (WordTrieNode w t f cs) remaining current_branches g2)))
      else
        (let branch = (if f then current_branch @ [t] else current_branch) in
         if is_leaf (WordTrieNode w t f cs) then Inr (current_branches @ [branch], g)
         else
           (case cs of
              [] \<Rightarrow> Inl StopIteration
            | (k, child_node) # _ \<Rightarrow> group_names_rec child_node branch current_branches g)))"
| "group_children [] sub_branches g = Inr (sub_branches, g)"
| "group_children ((k, child_node) # rest) sub_branches g =
     (case group_names_rec child_node [] sub_branches g of
        Inl e \<Rightarrow> Inl e
      | Inr (sub_branches', g') \<Rightarrow> group_children rest sub_branches' g')"
  by pat_completeness auto
termination
  by (relation "measure (\<lambda>x. case x of
        Inl (n, _) \<Rightarrow> size n
      | Inr (cs, _) \<Rightarrow> size_list (size_prod (\<lambda>_. 0) size) cs)") auto

text \<open>\<open>WordTrie.group_names\<close>: the traversal from the root with empty accumulators.\<close>

definition trie_group_names :: "word_trie \<Rightarrow> error + groups" where
  "trie_group_names t =
     (case group_names_rec (root t) [] [] [] of Inl e \<Rightarrow> Inl e | Inr (_, g) \<Rightarrow> Inr g)"

text \<open>\<open>words/tools.py\<close>: \<open>group_names\<close>.\<close>

definition group_names :: "string list \<Rightarrow> string \<Rightarrow> error + groups" where
  "group_names names d =
     (case from_names names d of Inl e \<Rightarrow> Inl e | Inr t \<Rightarrow> trie_group_names t)"

section \<open>Moving a name between groups (\<open>api/views.py\<close>)\<close>

text \<open>
  The row of a grouping task as far as \<open>move_name\<close> touches it: the stored result
  mapping and the time of the last save (\<open>auto_now\<close>). \<open>move_name\<close> starts after the
  request serializer has validated the three strings; \<open>now\<close> is the clock read by
  \<open>save\<close>. It returns the response and the row as it is stored after the request.
\<close>

record grouping_task =
  result :: groups
  updated_at :: nat

datatype response_body = Errors string "string list" | Task groups

datatype response = Response response_body nat

definition HTTP_200_OK :: nat where
  "HTTP_200_OK = 200"

definition HTTP_400_BAD_REQUEST :: nat where
  "HTTP_400_BAD_REQUEST = 400"

definition save :: "nat \<Rightarrow> grouping_task \<Rightarrow> grouping_task" where
  "save now task = task\<lparr>updated_at := now\<rparr>"

definition move_name ::
  "nat \<Rightarrow> string \<Rightarrow> string \<Rightarrow> string \<Rightarrow> grouping_task \<Rightarrow> error + (response \<times> grouping_task)" where
  "move_name now name source_group_name target_group_name task =
     (case map_of (result task) source_group_name of
        None \<Rightarrow>
          Inr (Response (Errors ''source_group''
                 [''Group not found: '' @ source_group_name @ ''.'']) HTTP_400_BAD_REQUEST,
               task)
      | Some members \<Rightarrow>
          if name \<notin> set members then
            Inr (Response (Errors ''name''
                   [[CHR 0x27] @ name @ [CHR 0x27] @ '' not found in group '' @
                    [CHR 0x27] @ source_group_name @ [CHR 0x27] @ ''.''])
                   HTTP_400_BAD_REQUEST,
                 task)
          else
            (let source_group = remove1 name members;
                 r1 = AList.update source_group_name source_group (result task);
                 r2 = (if source_group = [] then AList.delete source_group_name r1 else r1);
                 r3 = (if map_of r2 target_group_name = None
                       then AList.update target_group_name [] r2 else r2)
             in case map_of r3 target_group_name of
                  None \<Rightarrow> Inl KeyError
                | Some target_group \<Rightarrow>
                    (let r4 = AList.update target_group_name (target_group @ [name]) r3;
                         saved = save now (task\<lparr>result := r4\<rparr>)
                     in Inr (Response (Task (result saved)) HTTP_200_OK, saved))))"

text \<open>
  The move operation in the words of the specification, on mappings: remove the name
  from the source group, delete the source group if it became empty, create the target
  group if absent, append the name to the target group.
\<close>

definition move_name_spec ::
  "string \<Rightarrow> string \<Rightarrow> string \<Rightarrow> (string \<rightharpoonup> string list) \<Rightarrow> (string \<rightharpoonup> string list)" where
  "move_name_spec name src tgt m =
     (let members = remove1 name (the (m src));
          m1 = (if members = [] then m(src := None) else m(src \<mapsto> members));
          m2 = (if tgt \<in> dom m1 then m1 else m1(tgt \<mapsto> []))
      in m2(tgt \<mapsto> the (m2 tgt) @ [name]))"

section \<open>Reference inputs\<close>

definition EXAMPLE_NAMES :: "string list" where
  "EXAMPLE_NAMES =
     [''adhoc_charge_amt'', ''adhoc_charge_amt_usd'', ''alcohol_direct_payment_ind'',
      ''alcohol_tax_amt'', ''alcohol_tax_amt_usd'', ''alcohol_gmv_amt'',
      ''alcohol_gmv_amt_usd'', ''alcohol_product_ind'', ''bag_fee'', ''bag_fee_usd'',
      ''bags_fee_tax_amt'', ''bags_fee_tax_amt_usd'', ''bags_in_freezer'',
      ''bags_in_fridge'', ''bags_in_shelves'', ''country_id'', ''currency'']"

definition EXPECTED_GROUPS :: groups where
  "EXPECTED_GROUPS =
     [(''adhoc_charge_amt'', [''adhoc_charge_amt'', ''adhoc_charge_amt_usd'']),
      (''alcohol'', [''alcohol_direct_payment_ind'', ''alcohol_product_ind'']),
      (''alcohol_tax_amt'', [''alcohol_tax_amt'', ''alcohol_tax_amt_usd'']),
      (''alcohol_gmv_amt'', [''alcohol_gmv_amt'', ''alcohol_gmv_amt_usd'']),
      (''bag_fee'', [''bag_fee'', ''bag_fee_usd'']),
      (''bags_fee_tax_amt'', [''bags_fee_tax_amt'', ''bags_fee_tax_amt_usd'']),
      (''bags_in'', [''bags_in_freezer'', ''bags_in_fridge'', ''bags_in_shelves'']),
      (''country_id'', [''country_id'']),
      (''currency'', [''currency''])]"

text \<open>
  Two Python dictionaries are equal when they hold the same keys with the same values,
  in any order. On association lists with distinct keys that is equality of the sets of
  entries.
\<close>

definition same_dict :: "groups \<Rightarrow> groups \<Rightarrow> bool" where
  "same_dict a b = (distinct (map fst a) \<and> distinct (map fst b) \<and> set a = set b)"

section \<open>Invariants of a trie\<close>

text \<open>
  The node-text invariant in its path form: below a node reached by the words \<open>path\<close>,
  every child is stored under its own word and its text is the words of its path joined
  by the delimiter, and so on below the child.
\<close>

function (sequential)
  path_texts :: "string \<Rightarrow> string list \<Rightarrow> node \<Rightarrow> bool"
  and path_texts_children :: "string \<Rightarrow> string list \<Rightarrow> (string \<times> node) list \<Rightarrow> bool"
where
  "path_texts d path (WordTrieNode w t f cs) = path_texts_children d path cs"
| "path_texts_children d path [] = True"
| "path_texts_children d path ((k, c) # rest) =
     (word c = k \<and> node_text c = str_join d (path @ [k]) \<and> path_texts d (path @ [k]) c
      \<and> path_texts_children d path rest)"
  by pat_completeness auto
termination
  by (relation "measure (\<lambda>x. case x of
        Inl (_, _, n) \<Rightarrow> size n
      | Inr (_, _, cs) \<Rightarrow> size_list (size_prod (\<lambda>_. 0) size) cs)") auto

definition text_invariant :: "word_trie \<Rightarrow> bool" where
  "text_invariant t = (node_text (root t) = [] \<and> path_texts (word_delimiter t) [] (root t))"

text \<open>
  The same invariant in its parent form: a child of the root has its word as text, a
  child of any other node has the parent's text, the delimiter and its word.
\<close>

function (sequential)
  parent_texts :: "string \<Rightarrow> bool \<Rightarrow> node \<Rightarrow> bool"
  and parent_texts_children :: "string \<Rightarrow> bool \<Rightarrow> string \<Rightarrow> (string \<times> node) list \<Rightarrow> bool"
where
  "parent_texts d at_root (WordTrieNode w t f cs) = parent_texts_children d at_root t cs"
| "parent_texts_children d at_root parent_text [] = True"
| "parent_texts_children d at_root parent_text ((k, c) # rest) =
     (word c = k \<and> node_text c = (if at_root then word c else parent_text @ d @ word c)
      \<and> parent_texts d False c \<and> parent_texts_children d at_root parent_text rest)"
  by pat_completeness auto
termination
  by (relation "measure (\<lambda>x. case x of
        Inl (_, _, n) \<Rightarrow> size n
      | Inr (_, _, _, cs) \<Rightarrow> size_list (size_prod (\<lambda>_. 0) size) cs)") auto

definition parent_text_invariant :: "word_trie \<Rightarrow> bool" where
  "parent_text_invariant t =
     (node_text (root t) = [] \<and> parent_texts (word_delimiter t) True (root t))"

section \<open>Lists of names without later duplicates\<close>

text \<open>
  The list with every occurrence of a name after its first one removed; \<open>seen\<close> holds the
  names met so far.
\<close>

fun drop_seen :: "string list \<Rightarrow> string list \<Rightarrow> string list" where
  "drop_seen seen [] = []"
| "drop_seen seen (x # xs) =
     (if x \<in> set seen then drop_seen seen xs else x # drop_seen (x # seen) xs)"

definition drop_later_duplicates :: "string list \<Rightarrow> string list" where
  "drop_later_duplicates names = drop_seen [] names"

section \<open>The names a trie holds\<close>

text \<open>
  The texts of the nodes marked as full names, in depth-first order: below a node, and
  below a list of children.
\<close>

function (sequential)
  full_names :: "node \<Rightarrow> string list"
  and children_names :: "(string \<times> node) list \<Rightarrow> string list"
where
  "full_names (WordTrieNode w t f cs) = (if f then [t] else []) @ children_names cs"
| "children_names [] = []"
| "children_names ((k, c) # rest) = full_names c @ children_names rest"
  by pat_completeness auto
termination
  by (relation "measure (\<lambda>x. case x of
        Inl n \<Rightarrow> size n
      | Inr cs \<Rightarrow> size_list (size_prod (\<lambda>_. 0) size) cs)") auto

text \<open>All members of all groups of a mapping, group after group.\<close>

definition all_members :: "groups \<Rightarrow> string list" where
  "all_members g = concat (map snd g)"

text \<open>
  The word paths, from a node downwards, of the nodes marked as full names, in the same
  order as \<open>full_names\<close>.
\<close>

function (sequential)
  full_paths :: "node \<Rightarrow> string list list"
  and child_paths :: "(string \<times> node) list \<Rightarrow> string list list"
where
  "full_paths (WordTrieNode w t f cs) = (if f then [[]] else []) @ child_paths cs"
| "child_paths [] = []"
| "child_paths ((k, c) # rest) = map ((#) k) (full_paths c) @ child_paths rest"
  by pat_completeness auto
termination
  by (relation "measure (\<lambda>x. case x of
        Inl n \<Rightarrow> size n
      | Inr cs \<Rightarrow> size_list (size_prod (\<lambda>_. 0) size) cs)") auto

text \<open>A children dictionary has each key once, at every node.\<close>

function (sequential)
  distinct_keys :: "node \<Rightarrow> bool"
  and distinct_keys_children :: "(string \<times> node) list \<Rightarrow> bool"
where
  "distinct_keys (WordTrieNode w t f cs) = (distinct (map fst cs) \<and> distinct_keys_children cs)"
| "distinct_keys_children [] = True"
| "distinct_keys_children ((k, c) # rest) = (distinct_keys c \<and> distinct_keys_children rest)"
  by pat_completeness auto
termination
  by (relation "measure (\<lambda>x. case x of
        Inl n \<Rightarrow> size n
      | Inr cs \<Rightarrow> size_list (size_prod (\<lambda>_. 0) size) cs)") auto

section \<open>The traversal raises nothing\<close>

lemma is_branching_point_simp [simp]:
  "is_branching_point (WordTrieNode w t f cs) = (length cs > 1)"
  by (simp add: is_branching_point_def)

lemma is_leaf_simp [simp]: "is_leaf (WordTrieNode w t f cs) = (cs = [])"
  by (simp add: is_leaf_def)

lemma absorb_total: "\<exists>r. absorb n sub g = Inr r"
proof (induction n arbitrary: sub g)
  case 0
  show ?case by simp
next
  case (Suc n)
  show ?case
  proof (cases "n < length sub \<and> length (sub ! n) > 1")
    case True
    then have "sub ! n \<in> set sub" by simp
    moreover from True obtain x xs where "sub ! n = x # xs" by (cases "sub ! n") auto
    ultimately show ?thesis using True Suc.IH by (simp add: Let_def)
  next
    case False
    then show ?thesis using Suc.IH by (auto simp: Let_def)
  qed
qed

lemma group_names_rec_total:
  "\<exists>r. group_names_rec n cb cbs g = Inr r"
  "\<exists>r. group_children cs sub g = Inr r"
proof (induction n cb cbs g and cs sub g rule: group_names_rec_group_children.induct)
  case (1 w t f cs current_branch current_branches g)
  show ?case
  proof (cases "length cs > 1")
    case True
    from 1(1)[unfolded is_branching_point_simp, OF True] obtain sb g1 where a: "group_children cs [] g = Inr (sb, g1)" by auto
    obtain rm g2 where b: "absorb (length sb) sb g1 = Inr (rm, g2)"
      using absorb_total[of "length sb" sb g1] by auto
    show ?thesis using True a b by simp
  next
    case False
    show ?thesis
    proof (cases cs)
      case Nil
      then show ?thesis by simp
    next
      case (Cons kc rest)
      obtain k c where kc: "kc = (k, c)" by (cases kc)
      have "\<exists>r. group_names_rec c (if f then current_branch @ [t] else current_branch)
                current_branches g = Inr r"
        using 1(2)[unfolded is_branching_point_simp is_leaf_simp, OF False refl _ Cons[unfolded kc] refl] Cons by simp
      then show ?thesis using False Cons kc by (simp add: Let_def)
    qed
  qed
next
  case (2 sub_branches g)
  then show ?case by simp
next
  case (3 k child_node rest sub_branches g)
  from 3(1) obtain sb g1 where a: "group_names_rec child_node [] sub_branches g = Inr (sb, g1)"
    by auto
  from 3(2)[OF a refl] show ?case using a by simp
qed

lemma trie_group_names_total: "\<exists>g. trie_group_names t = Inr g"
proof -
  obtain cbs g where "group_names_rec (root t) [] [] [] = Inr (cbs, g)"
    using group_names_rec_total(1)[of "root t" "[]" "[]" "[]"] by auto
  then show ?thesis by (simp add: trie_group_names_def)
qed

lemma insert_name_ok:
  "word_delimiter t \<noteq> [] \<Longrightarrow>
   insert_name name t =
     Inr (t\<lparr>root := insert_words (word_delimiter t) (split_scan (word_delimiter t) [] name) 1
                     (split_scan (word_delimiter t) [] name) (root t)\<rparr>)"
  by (simp add: insert_name_def str_split_def)

lemma insert_all_ok:
  "word_delimiter t \<noteq> [] \<Longrightarrow>
   \<exists>t'. insert_all names t = Inr t' \<and> word_delimiter t' = word_delimiter t"
proof (induction names arbitrary: t)
  case Nil
  show ?case by simp
next
  case (Cons name names)
  let ?t1 = "t\<lparr>root := insert_words (word_delimiter t) (split_scan (word_delimiter t) [] name) 1
                     (split_scan (word_delimiter t) [] name) (root t)\<rparr>"
  have "word_delimiter ?t1 \<noteq> []" using Cons.prems by simp
  from Cons.IH[OF this] show ?case using Cons.prems by (simp add: insert_name_ok)
qed

lemma from_names_ok:
  "d \<noteq> [] \<Longrightarrow> \<exists>t. from_names names d = Inr t \<and> word_delimiter t = d"
  using insert_all_ok[of "new_trie d" names] by (simp add: from_names_def new_trie_def)

text \<open>
  C6. Grouping the empty list of names raises nothing and returns the empty mapping,
  whatever the delimiter. The traversal returns a mapping for every tree, so for every
  tree that \<open>from_names\<close> builds, and \<open>group_names\<close> returns a mapping for every list
  of names and every one-character delimiter. (Not modelled: the interpreter's
  recursion limit.)
\<close>

theorem group_names_raises_nothing:
  "group_names [] d = Inr []
   \<and> (\<exists>g. trie_group_names t = Inr g)
   \<and> (\<exists>g. group_names names [c] = Inr g)"
proof -
  have "group_names [] d = Inr []"
    by (simp add: group_names_def from_names_def new_trie_def trie_group_names_def)
  moreover have "\<exists>g. group_names names [c] = Inr g"
  proof -
    obtain tr where "from_names names [c] = Inr tr"
      using from_names_ok[of "[c]" names] by auto
    then show ?thesis using trie_group_names_total[of tr] by (simp add: group_names_def)
  qed
  ultimately show ?thesis using trie_group_names_total[of t] by blast
qed

section \<open>Concrete runs\<close>

text \<open>
  C2. The names \<open>a_b\<close> and \<open>a_b_c\<close> with the default delimiter: the root has one child, no
  node on the single chain is a branching point, and the branch that the leaf closes is
  appended to the outermost \<open>current_branches\<close>, which nothing reads. The code returns
  the empty mapping, not the group \<open>a_b\<close> of the two names. With a third name \<open>x\<close> the
  root is a branching point and the same chain is grouped under its shallowest full name.
\<close>

theorem group_names_single_chain:
  "group_names [''a_b'', ''a_b_c''] DEFAULT_WORD_DELIMITER = Inr []
   \<and> group_names [''a_b'', ''a_b_c'', ''x''] DEFAULT_WORD_DELIMITER =
       Inr [(''a_b'', [''a_b'', ''a_b_c'']), (''x'', [''x''])]"
  by code_simp

text \<open>
  C3. The seventeen reference names with the default delimiter give the nine expected
  groups, as a dictionary; the order in which the code creates the keys is the one
  written in the proof.
\<close>

theorem group_names_reference_scenario:
  "\<exists>g. group_names EXAMPLE_NAMES DEFAULT_WORD_DELIMITER = Inr g \<and> same_dict g EXPECTED_GROUPS"
proof -
  have "group_names EXAMPLE_NAMES DEFAULT_WORD_DELIMITER =
    Inr [(''alcohol_gmv_amt'', [''alcohol_gmv_amt'', ''alcohol_gmv_amt_usd'']),
         (''alcohol_tax_amt'', [''alcohol_tax_amt'', ''alcohol_tax_amt_usd'']),
         (''alcohol'', [''alcohol_direct_payment_ind'', ''alcohol_product_ind'']),
         (''bags_in'', [''bags_in_freezer'', ''bags_in_fridge'', ''bags_in_shelves'']),
         (''bags_fee_tax_amt'', [''bags_fee_tax_amt'', ''bags_fee_tax_amt_usd'']),
         (''bag_fee'', [''bag_fee'', ''bag_fee_usd'']),
         (''adhoc_charge_amt'', [''adhoc_charge_amt'', ''adhoc_charge_amt_usd'']),
         (''country_id'', [''country_id'']),
         (''currency'', [''currency''])]" (is "_ = Inr ?g")
    by code_simp
  moreover have "same_dict ?g EXPECTED_GROUPS"
    by code_simp
  ultimately show ?thesis by blast
qed

text \<open>
  C4. Grouping \<open>foo\<close> and \<open>xyz\<close> produces the group \<open>foo\<close> with the single member \<open>foo\<close>;
  grouping that member list alone returns the empty mapping, not the group \<open>foo\<close> again.
\<close>

theorem regrouping_singleton_group:
  "group_names [''foo'', ''xyz''] DEFAULT_WORD_DELIMITER =
     Inr [(''foo'', [''foo'']), (''xyz'', [''xyz''])]
   \<and> group_names [''foo''] DEFAULT_WORD_DELIMITER = Inr []"
  by code_simp

section \<open>Moving a name\<close>

lemma map_of_update_fun: "map_of (AList.update k v al) = (map_of al)(k \<mapsto> v)"
  by (rule ext) (simp add: update_conv)

lemma map_of_delete_fun: "map_of (AList.delete k al) = (map_of al)(k := None)"
  by (rule ext) (simp add: delete_conv)

text \<open>
  C7. When the name is in the source group, the move answers 200 with the new mapping
  and stores it; as a mapping the new result is the old one with the name removed from
  the source group, the source group deleted if that emptied it, the target group
  created empty if absent, and the name appended to the target group. Moving \<open>xyz\<close> from
  \<open>xyz\<close> to \<open>foo\<close> in the workflow's mapping leaves the single group \<open>foo\<close>.
\<close>

theorem move_name_moves:
  assumes "map_of (result task) src = Some members" and "name \<in> set members"
  shows "(\<exists>r'. move_name now name src tgt task =
                 Inr (Response (Task r') HTTP_200_OK, task\<lparr>result := r', updated_at := now\<rparr>)
              \<and> map_of r' = move_name_spec name src tgt (map_of (result task)))
         \<and> move_name now ''xyz'' ''xyz'' ''foo''
             \<lparr>result = [(''foo'', [''foo'', ''foo-bar'', ''foo-baz'']), (''xyz'', [''xyz''])],
              updated_at = u\<rparr> =
           Inr (Response (Task [(''foo'', [''foo'', ''foo-bar'', ''foo-baz'', ''xyz''])])
                  HTTP_200_OK,
                \<lparr>result = [(''foo'', [''foo'', ''foo-bar'', ''foo-baz'', ''xyz''])],
                 updated_at = now\<rparr>)"
proof
  define sg where "sg = remove1 name members"
  define r1 where "r1 = AList.update src sg (result task)"
  define r2 where "r2 = (if sg = [] then AList.delete src r1 else r1)"
  define r3 where "r3 = (if map_of r2 tgt = None then AList.update tgt [] r2 else r2)"
  have m2: "map_of r2 = (if sg = [] then (map_of (result task))(src := None)
                         else (map_of (result task))(src \<mapsto> sg))"
    by (simp add: r2_def r1_def map_of_update_fun map_of_delete_fun)
  have m3: "map_of r3 = (if tgt \<in> dom (map_of r2) then map_of r2 else (map_of r2)(tgt \<mapsto> []))"
    by (auto simp: r3_def map_of_update_fun domIff)
  have "tgt \<in> dom (map_of r3)"
    by (simp add: m3)
  then obtain tg where tg: "map_of r3 tgt = Some tg"
    by blast
  define r4 where "r4 = AList.update tgt (tg @ [name]) r3"
  have run: "move_name now name src tgt task =
               Inr (Response (Task r4) HTTP_200_OK, task\<lparr>result := r4, updated_at := now\<rparr>)"
    using assms tg unfolding r4_def r3_def r2_def r1_def sg_def
    by (simp add: move_name_def Let_def save_def)
  have e1: "remove1 name (the (map_of (result task) src)) = sg"
    using assms(1) by (simp add: sg_def)
  have "map_of r4 = move_name_spec name src tgt (map_of (result task))"
    unfolding move_name_spec_def Let_def e1 m2[symmetric] m3[symmetric]
    using tg by (simp add: r4_def map_of_update_fun)
  with run show "\<exists>r'. move_name now name src tgt task =
                 Inr (Response (Task r') HTTP_200_OK, task\<lparr>result := r', updated_at := now\<rparr>)
              \<and> map_of r' = move_name_spec name src tgt (map_of (result task))"
    by blast
next
  show "move_name now ''xyz'' ''xyz'' ''foo''
             \<lparr>result = [(''foo'', [''foo'', ''foo-bar'', ''foo-baz'']), (''xyz'', [''xyz''])],
              updated_at = u\<rparr> =
           Inr (Response (Task [(''foo'', [''foo'', ''foo-bar'', ''foo-baz'', ''xyz''])])
                  HTTP_200_OK,
                \<lparr>result = [(''foo'', [''foo'', ''foo-bar'', ''foo-baz'', ''xyz''])],
                 updated_at = now\<rparr>)"
    by (simp add: move_name_def save_def Let_def)
qed

theorem move_name_moves_witness:
  "map_of (result \<lparr>result = [(''group1'', [''example'', ''other''])], updated_at = 3\<rparr>) ''group1''
     = Some [''example'', ''other'']
   \<and> ''example'' \<in> set [''example'', ''other'']
   \<and> (\<exists>r'. move_name 8 ''example'' ''group1'' ''group2''
              \<lparr>result = [(''group1'', [''example'', ''other''])], updated_at = 3\<rparr> =
            Inr (Response (Task r') HTTP_200_OK, \<lparr>result = r', updated_at = 8\<rparr>)
          \<and> map_of r' = move_name_spec ''example'' ''group1'' ''group2''
                         (map_of [(''group1'', [''example'', ''other''])]))"
proof -
  have h1: "map_of (result \<lparr>result = [(''group1'', [''example'', ''other''])], updated_at = 3\<rparr>)
              ''group1'' = Some [''example'', ''other'']"
    by simp
  have h2: "''example'' \<in> set [''example'', ''other'']"
    by simp
  from move_name_moves[OF h1 h2, of 8 "''group2''"] h1 h2 show ?thesis
    by simp
qed

text \<open>
  C10. When the source group is not a key of the stored mapping, or the name is not in
  the source group's list, the move answers 400 with a validation error and the stored
  row is the one it was: the mapping and the time of the last save are unchanged.
\<close>

theorem move_name_rejects_unchanged:
  assumes "map_of (result task) src = None
           \<or> (\<exists>members. map_of (result task) src = Some members \<and> name \<notin> set members)"
  shows "\<exists>field messages. move_name now name src tgt task =
           Inr (Response (Errors field messages) HTTP_400_BAD_REQUEST, task)"
  using assms by (auto simp: move_name_def)


theorem move_name_rejects_unchanged_witness:
  "(map_of (result \<lparr>result = [(''group1'', [''example''])], updated_at = 3\<rparr>) ''group2'' = None
    \<or> (\<exists>members. map_of (result \<lparr>result = [(''group1'', [''example''])], updated_at = 3\<rparr>)
            ''group2'' = Some members \<and> ''example'' \<notin> set members))
   \<and> (\<exists>field messages.
        move_name 8 ''example'' ''group2'' ''group1''
          \<lparr>result = [(''group1'', [''example''])], updated_at = 3\<rparr> =
        Inr (Response (Errors field messages) HTTP_400_BAD_REQUEST,
             \<lparr>result = [(''group1'', [''example''])], updated_at = 3\<rparr>))"
proof -
  have h: "map_of (result \<lparr>result = [(''group1'', [''example''])], updated_at = 3\<rparr>) ''group2'' = None
    \<or> (\<exists>members. map_of (result \<lparr>result = [(''group1'', [''example''])], updated_at = 3\<rparr>)
            ''group2'' = Some members \<and> ''example'' \<notin> set members)"
    by simp
  from move_name_rejects_unchanged[OF h, of 8 "''group1''"] h show ?thesis
    by blast
qed

section \<open>The node-text invariant\<close>

lemma str_join_snoc:
  "str_join d (path @ [k]) = (if path = [] then k else str_join d path @ d @ k)"
  by (induction d path rule: str_join.induct) auto

lemma path_texts_children_iff:
  "path_texts_children d path cs \<longleftrightarrow>
     (\<forall>(k, c) \<in> set cs. word c = k \<and> node_text c = str_join d (path @ [k])
        \<and> path_texts d (path @ [k]) c)"
  by (induction cs) auto

lemma path_texts_children_update:
  "path_texts_children d path cs \<Longrightarrow> word c = k \<Longrightarrow> node_text c = str_join d (path @ [k]) \<Longrightarrow>
   path_texts d (path @ [k]) c \<Longrightarrow> path_texts_children d path (AList.update k c cs)"
  by (induction cs) auto

lemma insert_words_word [simp]: "word (insert_words d words i rest n) = word n"
  by (cases n; cases rest) (simp_all add: Let_def)

lemma insert_words_node_text [simp]: "node_text (insert_words d words i rest n) = node_text n"
  by (cases n; cases rest) (simp_all add: Let_def)

lemma path_texts_insert_words:
  "path_texts d path n \<Longrightarrow> words = path @ rest \<Longrightarrow> i = Suc (length path) \<Longrightarrow>
   path_texts d path (insert_words d words i rest n)"
proof (induction rest arbitrary: path i n)
  case Nil
  then show ?case by (cases n) simp
next
  case (Cons wd rest)
  obtain w t f cs where n: "n = WordTrieNode w t f cs" by (cases n)
  define child where "child = (case map_of cs wd of Some c \<Rightarrow> c
      | None \<Rightarrow> WordTrieNode wd (str_join d (take i words)) False [])"
  have tk: "take i words = path @ [wd]"
    using Cons.prems by simp
  have cs: "path_texts_children d path cs"
    using Cons.prems n by simp
  have ch: "word child = wd \<and> node_text child = str_join d (path @ [wd])
            \<and> path_texts d (path @ [wd]) child"
  proof (cases "map_of cs wd")
    case None
    then show ?thesis by (simp add: child_def tk)
  next
    case (Some c)
    then have "(wd, c) \<in> set cs" by (rule map_of_SomeD)
    then show ?thesis using cs Some by (auto simp: child_def path_texts_children_iff)
  qed
  have "path_texts d (path @ [wd]) (insert_words d words (Suc i) rest child)"
    using Cons.IH[of "path @ [wd]" child "Suc i"] ch Cons.prems by simp
  then have "path_texts_children d path
               (AList.update wd (insert_words d words (Suc i) rest child) cs)"
    using cs ch by (intro path_texts_children_update) simp_all
  then show ?case by (simp add: n child_def)
qed

lemma text_invariant_insert_name:
  assumes "text_invariant t" and "insert_name name t = Inr t'"
  shows "text_invariant t'"
proof -
  obtain words where w: "str_split (word_delimiter t) name = Inr words"
    and t': "t' = t\<lparr>root := insert_words (word_delimiter t) words 1 words (root t)\<rparr>"
    using assms(2) by (auto simp: insert_name_def split: sum.splits)
  have "path_texts (word_delimiter t) [] (insert_words (word_delimiter t) words 1 words (root t))"
    using assms(1) by (intro path_texts_insert_words) (simp_all add: text_invariant_def)
  then show ?thesis using assms(1) by (simp add: t' text_invariant_def)
qed

lemma text_invariant_insert_all:
  "text_invariant t \<Longrightarrow> insert_all names t = Inr t' \<Longrightarrow> text_invariant t'"
proof (induction names arbitrary: t)
  case Nil
  then show ?case by simp
next
  case (Cons name names)
  from Cons.prems(2) obtain t1 where t1: "insert_name name t = Inr t1"
    and rest: "insert_all names t1 = Inr t'"
    by (auto split: sum.splits)
  from Cons.IH[OF text_invariant_insert_name[OF Cons.prems(1) t1] rest] show ?case .
qed

lemma text_invariant_new_trie: "text_invariant (new_trie d)"
  by (simp add: text_invariant_def new_trie_def)

lemma path_texts_parent_texts:
  "(at_root \<longleftrightarrow> path = []) \<Longrightarrow> (\<not> at_root \<Longrightarrow> node_text n = str_join d path) \<Longrightarrow>
   path_texts d path n = parent_texts d at_root n"
  "(at_root \<longleftrightarrow> path = []) \<Longrightarrow> (\<not> at_root \<Longrightarrow> pt = str_join d path) \<Longrightarrow>
   path_texts_children d path cs = parent_texts_children d at_root pt cs"
proof (induction d path n and d path cs arbitrary: at_root and at_root pt
       rule: path_texts_path_texts_children.induct)
  case (1 d path w t f cs)
  from 1(1)[of at_root t] 1(2,3) show ?case by simp
next
  case (2 d path)
  show ?case by simp
next
  case (3 d path k c rest)
  have a: "node_text c = str_join d (path @ [k]) \<Longrightarrow>
        path_texts d (path @ [k]) c = parent_texts d False c"
    using 3(1)[of False] by simp
  have b: "path_texts_children d path rest = parent_texts_children d at_root pt rest"
    using 3(2)[of at_root pt] 3(3,4) by simp
  have c: "word c = k \<Longrightarrow> str_join d (path @ [k]) = (if at_root then word c else pt @ d @ word c)"
    using 3(3,4) by (auto simp: str_join_snoc)
  show ?case using a b c by auto
qed

lemma text_invariant_parent_form: "text_invariant t = parent_text_invariant t"
  using path_texts_parent_texts(1)[of True "[]" "root t" "word_delimiter t"]
  by (simp add: text_invariant_def parent_text_invariant_def)

text \<open>
  C8. The empty trie satisfies the node-text invariant (the root's text is empty and
  every other node's text is the words of its path joined by the delimiter); every
  \<open>insert_name\<close> that returns preserves it; so every trie that \<open>from_names\<close> builds
  satisfies it; and the path form is equivalent to the parent form (a child of the root
  has its word as text, a deeper node its parent's text, the delimiter and its word).
\<close>

theorem node_text_invariant:
  "text_invariant (new_trie d)
   \<and> (text_invariant t \<longrightarrow> insert_name name t = Inr t1 \<longrightarrow> text_invariant t1)
   \<and> (from_names names d = Inr t2 \<longrightarrow> text_invariant t2)
   \<and> (text_invariant t = parent_text_invariant t)"
proof -
  have "from_names names d = Inr t2 \<longrightarrow> text_invariant t2"
    using text_invariant_insert_all[OF text_invariant_new_trie, of names d t2]
    by (simp add: from_names_def)
  then show ?thesis
    using text_invariant_new_trie text_invariant_insert_name text_invariant_parent_form
    by blast
qed

theorem node_text_invariant_witness:
  "text_invariant (new_trie ''_'')
   \<and> insert_name ''foo_bar'' (new_trie ''_'') =
       Inr \<lparr>root = WordTrieNode [] [] False
                    [(''foo'', WordTrieNode ''foo'' ''foo'' False
                        [(''bar'', WordTrieNode ''bar'' ''foo_bar'' True [])])],
            word_delimiter = ''_''\<rparr>
   \<and> text_invariant
       \<lparr>root = WordTrieNode [] [] False
                 [(''foo'', WordTrieNode ''foo'' ''foo'' False
                     [(''bar'', WordTrieNode ''bar'' ''foo_bar'' True [])])],
        word_delimiter = ''_''\<rparr>
   \<and> from_names [''foo_bar'', ''foo_baz''] ''_'' =
       Inr \<lparr>root = WordTrieNode [] [] False
                    [(''foo'', WordTrieNode ''foo'' ''foo'' False
                        [(''bar'', WordTrieNode ''bar'' ''foo_bar'' True []),
                         (''baz'', WordTrieNode ''baz'' ''foo_baz'' True [])])],
            word_delimiter = ''_''\<rparr>
   \<and> parent_text_invariant
       \<lparr>root = WordTrieNode [] [] False
                 [(''foo'', WordTrieNode ''foo'' ''foo'' False
                     [(''bar'', WordTrieNode ''bar'' ''foo_bar'' True []),
                      (''baz'', WordTrieNode ''baz'' ''foo_baz'' True [])])],
        word_delimiter = ''_''\<rparr>"
  (is "_ \<and> _ = Inr ?T1 \<and> _ \<and> _ = Inr ?T2 \<and> _")
proof -
  have h1: "insert_name ''foo_bar'' (new_trie ''_'') = Inr ?T1"
    by code_simp
  have h2: "from_names [''foo_bar'', ''foo_baz''] ''_'' = Inr ?T2"
    by code_simp
  have a: "text_invariant (new_trie ''_'')" and b: "text_invariant ?T1"
    using node_text_invariant[of "''_''" "new_trie ''_''" "''foo_bar''" ?T1 "[]" "new_trie ''_''"] h1
    by blast+
  have c: "parent_text_invariant ?T2"
    using node_text_invariant[of "''_''" ?T2 "[]" ?T2 "[''foo_bar'', ''foo_baz'']" ?T2] h2
    by blast
  show ?thesis using a b c h1 h2 by blast
qed

section \<open>Inserting a name that is already there\<close>

lemma insert_words_idem:
  "insert_words d words i rest (insert_words d words i rest n) = insert_words d words i rest n"
proof (induction rest arbitrary: i n)
  case Nil
  show ?case by (cases n) simp
next
  case (Cons wd rest)
  obtain w t f cs where n: "n = WordTrieNode w t f cs" by (cases n)
  define child where "child = (case map_of cs wd of Some c \<Rightarrow> c
      | None \<Rightarrow> WordTrieNode wd (str_join d (take i words)) False [])"
  define c1 where "c1 = insert_words d words (Suc i) rest child"
  have first: "insert_words d words i (wd # rest) n = WordTrieNode w t f (AList.update wd c1 cs)"
    by (simp add: n child_def c1_def)
  have "map_of (AList.update wd c1 cs) wd = Some c1"
    by (simp add: update_conv')
  then have "insert_words d words i (wd # rest) (WordTrieNode w t f (AList.update wd c1 cs)) =
             WordTrieNode w t f (AList.update wd (insert_words d words (Suc i) rest c1) cs)"
    by simp
  also have "insert_words d words (Suc i) rest c1 = c1"
    unfolding c1_def by (rule Cons.IH)
  finally show ?case by (simp add: first)
qed

text \<open>
  A name whose insertion changes nothing stays so after any other insertion.
\<close>

lemma insert_words_absorbed:
  "insert_words d xs i x n = n \<Longrightarrow>
   insert_words d xs i x (insert_words e ys j y n) = insert_words e ys j y n"
proof (induction x arbitrary: i j y n)
  case Nil
  obtain w t f cs where n: "n = WordTrieNode w t f cs" by (cases n)
  from Nil have "f" by (simp add: n)
  then show ?case by (cases y) (simp_all add: n Let_def)
next
  case (Cons wd x)
  obtain w t f cs where n: "n = WordTrieNode w t f cs" by (cases n)
  define child where "child = (case map_of cs wd of Some c \<Rightarrow> c
      | None \<Rightarrow> WordTrieNode wd (str_join d (take i xs)) False [])"
  from Cons.prems have upd: "AList.update wd (insert_words d xs (Suc i) x child) cs = cs"
    by (simp add: n child_def)
  have "map_of (AList.update wd (insert_words d xs (Suc i) x child) cs) wd =
        Some (insert_words d xs (Suc i) x child)"
    by (simp add: update_conv')
  then have look: "map_of cs wd = Some (insert_words d xs (Suc i) x child)"
    by (simp add: upd)
  then have child: "map_of cs wd = Some child"
    by (cases "map_of cs wd") (simp_all add: child_def)
  with look have fixd: "insert_words d xs (Suc i) x child = child"
    by simp
  show ?case
  proof (cases y)
    case Nil
    then show ?thesis using child fixd by (simp add: n update_triv)
  next
    case (Cons yd y')
    define cy where "cy = insert_words e ys (Suc j) y'
        (case map_of cs yd of Some c \<Rightarrow> c
         | None \<Rightarrow> WordTrieNode yd (str_join e (take j ys)) False [])"
    have n': "insert_words e ys j y n = WordTrieNode w t f (AList.update yd cy cs)"
      by (simp add: n Cons cy_def)
    show ?thesis
    proof (cases "wd = yd")
      case True
      have cy: "cy = insert_words e ys (Suc j) y' child"
        using child True by (simp add: cy_def)
      have "insert_words d xs (Suc i) x cy = cy"
        unfolding cy by (rule Cons.IH[OF fixd])
      then show ?thesis by (simp add: n' True update_conv')
    next
      case False
      then have "map_of (AList.update yd cy cs) wd = Some child"
        using child by (simp add: update_conv')
      then show ?thesis using fixd by (simp add: n' update_triv)
    qed
  qed
qed

lemma insert_name_idem:
  "insert_name name t = Inr t' \<Longrightarrow> insert_name name t' = Inr t'"
  by (auto simp: insert_name_def insert_words_idem split: sum.splits)

lemma insert_name_absorbed:
  "insert_name x t = Inr t \<Longrightarrow> insert_name y t = Inr t' \<Longrightarrow> insert_name x t' = Inr t'"
proof -
  assume a: "insert_name x t = Inr t" and b: "insert_name y t = Inr t'"
  obtain xs where xs: "str_split (word_delimiter t) x = Inr xs"
    and fx: "t = t\<lparr>root := insert_words (word_delimiter t) xs 1 xs (root t)\<rparr>"
    using a by (auto simp: insert_name_def split: sum.splits)
  obtain ys where ys: "str_split (word_delimiter t) y = Inr ys"
    and t': "t' = t\<lparr>root := insert_words (word_delimiter t) ys 1 ys (root t)\<rparr>"
    using b by (auto simp: insert_name_def split: sum.splits)
  have "root t = insert_words (word_delimiter t) xs 1 xs (root t)"
    using arg_cong[OF fx, of root] by simp
  then have "insert_words (word_delimiter t) xs 1 xs (root t) = root t"
    by simp
  from insert_words_absorbed[OF this, of "word_delimiter t" ys 1 ys]
  show ?thesis by (simp add: insert_name_def t' xs)
qed

lemma insert_all_drop_seen:
  "(\<And>s. s \<in> set seen \<Longrightarrow> insert_name s t = Inr t) \<Longrightarrow>
   insert_all (drop_seen seen names) t = insert_all names t"
proof (induction names arbitrary: seen t)
  case Nil
  show ?case by simp
next
  case (Cons x names)
  show ?case
  proof (cases "x \<in> set seen")
    case True
    then have "insert_name x t = Inr t" by (rule Cons.prems)
    then show ?thesis using True Cons.IH[of seen t] Cons.prems by simp
  next
    case False
    show ?thesis
    proof (cases "insert_name x t")
      case (Inl e)
      then show ?thesis using False by simp
    next
      case (Inr t1)
      have "insert_name s t1 = Inr t1" if "s \<in> set (x # seen)" for s
      proof (cases "s = x")
        case True
        then show ?thesis using Inr by (simp add: insert_name_idem)
      next
        case False
        with that have "s \<in> set seen" by simp
        then have "insert_name s t = Inr t" by (rule Cons.prems)
        then show ?thesis using Inr by (rule insert_name_absorbed)
      qed
      from Cons.IH[of "x # seen" t1, OF this] show ?thesis
        using False Inr by simp
    qed
  qed
qed

lemma from_names_drop_later_duplicates:
  "from_names (drop_later_duplicates names) d = from_names names d"
  using insert_all_drop_seen[of "[]" "new_trie d" names]
  by (simp add: from_names_def drop_later_duplicates_def)

text \<open>
  C9. If inserting a name returns a trie, inserting the same name into that trie returns
  it unchanged; and building the trie from a list of names gives the same result (trie or
  error) as building it from the list without its later duplicates.
\<close>

theorem insert_name_idempotent:
  "(insert_name name t = Inr t' \<longrightarrow> insert_name name t' = Inr t')
   \<and> from_names (drop_later_duplicates names) d = from_names names d"
  using insert_name_idem from_names_drop_later_duplicates by blast

theorem insert_name_idempotent_witness:
  "insert_name ''foo_bar'' (new_trie ''_'') =
     Inr \<lparr>root = WordTrieNode [] [] False
                  [(''foo'', WordTrieNode ''foo'' ''foo'' False
                      [(''bar'', WordTrieNode ''bar'' ''foo_bar'' True [])])],
          word_delimiter = ''_''\<rparr>
   \<and> insert_name ''foo_bar''
       \<lparr>root = WordTrieNode [] [] False
                 [(''foo'', WordTrieNode ''foo'' ''foo'' False
                     [(''bar'', WordTrieNode ''bar'' ''foo_bar'' True [])])],
        word_delimiter = ''_''\<rparr> =
     Inr \<lparr>root = WordTrieNode [] [] False
                  [(''foo'', WordTrieNode ''foo'' ''foo'' False
                      [(''bar'', WordTrieNode ''bar'' ''foo_bar'' True [])])],
          word_delimiter = ''_''\<rparr>
   \<and> drop_later_duplicates [''a_b'', ''c'', ''a_b'', ''c'', ''a''] = [''a_b'', ''c'', ''a'']
   \<and> from_names [''a_b'', ''c'', ''a''] ''_'' = from_names [''a_b'', ''c'', ''a_b'', ''c'', ''a''] ''_''"
  (is "_ = Inr ?T \<and> _ \<and> ?D = _ \<and> _")
proof -
  have h: "insert_name ''foo_bar'' (new_trie ''_'') = Inr ?T"
    by code_simp
  have d: "?D = [''a_b'', ''c'', ''a'']"
    by code_simp
  from insert_name_idempotent[of "''foo_bar''" "new_trie ''_''" ?T
      "[''a_b'', ''c'', ''a_b'', ''c'', ''a'']" "''_''"] h d
  show ?thesis by simp
qed

section \<open>What the traversal puts into groups\<close>

lemma members_update_extend:
  "mset (all_members (AList.update k ((case map_of g k of None \<Rightarrow> [] | Some v \<Rightarrow> v) @ xs) g)) =
   mset (all_members g) + mset xs"
  by (induction g) (auto simp: all_members_def)

lemma members_dict_extend: "mset (all_members (dict_extend k xs g)) = mset (all_members g) + mset xs"
  by (simp add: dict_extend_def members_update_extend)

lemma members_fold_singletons:
  "mset (all_members (fold (\<lambda>full_name. dict_extend full_name [full_name]) xs g)) =
   mset (all_members g) + mset xs"
  by (induction xs arbitrary: g) (simp_all add: members_dict_extend)

lemma concat_remove1:
  "b \<in> set sub \<Longrightarrow> mset (concat (remove1 b sub)) + mset b = mset (concat sub)"
  by (induction sub) auto

lemma absorb_members:
  "absorb n sub g = Inr (sub', g') \<Longrightarrow>
   mset (all_members g') + mset (concat sub') = mset (all_members g) + mset (concat sub)"
proof (induction n arbitrary: sub g)
  case 0
  then show ?case by simp
next
  case (Suc n)
  show ?case
  proof (cases "n < length sub \<and> length (sub ! n) > 1")
    case True
    then have mem: "sub ! n \<in> set sub" by simp
    from True obtain x xs where b: "sub ! n = x # xs" by (cases "sub ! n") auto
    from Suc.prems True mem b
    have "absorb n (remove1 (sub ! n) sub) (dict_extend x (sub ! n) g) = Inr (sub', g')"
      by (simp add: Let_def)
    from Suc.IH[OF this]
    have "mset (all_members g') + mset (concat sub') =
          mset (all_members g) + (mset (concat (remove1 (sub ! n) sub)) + mset (sub ! n))"
      by (simp add: members_dict_extend)
    then show ?thesis by (simp add: concat_remove1[OF mem])
  next
    case False
    then show ?thesis using Suc.prems Suc.IH[of sub g] by (auto simp: Let_def split: if_splits)
  qed
qed

lemma resolve_members:
  "resolve n sub cbs g = (cbs', g') \<Longrightarrow>
   mset (all_members g') + mset (concat cbs') \<subseteq>#
   mset (all_members g) + mset (concat cbs) + mset (concat sub)
     + (if is_full_name n then {#node_text n#} else {#})"
  by (auto simp: resolve_def members_fold_singletons members_dict_extend split: if_splits)

lemma group_names_rec_members:
  "group_names_rec n cb cbs g = Inr (cbs', g') \<Longrightarrow>
   mset (all_members g') + mset (concat cbs') \<subseteq>#
   mset (all_members g) + mset (concat cbs) + mset cb + mset (full_names n)"
  "group_children cs sub g = Inr (sub', g') \<Longrightarrow>
   mset (all_members g') + mset (concat sub') \<subseteq>#
   mset (all_members g) + mset (concat sub) + mset (children_names cs)"
proof (induction n cb cbs g and cs sub g arbitrary: cbs' g' and sub' g'
       rule: group_names_rec_group_children.induct)
  case (1 w t f cs cb cbs g)
  let ?n = "WordTrieNode w t f cs"
  show ?case
  proof (cases "length cs > 1")
    case True
    from 1(3) True obtain sb g1 rm g2 where
      a: "group_children cs [] g = Inr (sb, g1)" and
      b: "absorb (length sb) sb g1 = Inr (rm, g2)" and
      c: "resolve ?n rm cbs g2 = (cbs', g')"
      by (auto split: sum.splits prod.splits)
    from 1(1)[unfolded is_branching_point_simp, OF True a] have a': "mset (all_members g1) + mset (concat sb) \<subseteq>#
        mset (all_members g) + mset (children_names cs)" by simp
    from absorb_members[OF b] have b': "mset (all_members g2) + mset (concat rm) =
        mset (all_members g1) + mset (concat sb)" .
    from resolve_members[OF c] have "mset (all_members g') + mset (concat cbs') \<subseteq>#
        mset (all_members g2) + mset (concat cbs) + mset (concat rm) + (if f then {#t#} else {#})"
      by (cases f) simp_all
    also have "\<dots> = (mset (all_members g2) + mset (concat rm)) + mset (concat cbs)
        + (if f then {#t#} else {#})"
      by (simp only: ac_simps)
    also have "\<dots> \<subseteq># (mset (all_members g) + mset (children_names cs)) + mset (concat cbs)
        + (if f then {#t#} else {#})"
      unfolding b' using a' by simp
    also have "\<dots> \<subseteq># mset (all_members g) + mset (concat cbs) + mset cb + mset (full_names ?n)"
      by (simp add: subseteq_mset_def)
    finally show ?thesis .
  next
    case False
    let ?b = "if f then cb @ [t] else cb"
    show ?thesis
    proof (cases cs)
      case Nil
      with 1(3) show ?thesis by (auto simp: subseteq_mset_def)
    next
      case (Cons kc rest)
      obtain k c where kc: "kc = (k, c)" by (cases kc)
      from False Cons have rest: "rest = []" by simp
      from 1(3) False Cons kc have run: "group_names_rec c ?b cbs g = Inr (cbs', g')"
        by (simp add: Let_def)
      from 1(2)[unfolded is_branching_point_simp is_leaf_simp, OF False refl _ Cons[unfolded kc] refl run] Cons
      have "mset (all_members g') + mset (concat cbs') \<subseteq>#
            mset (all_members g) + mset (concat cbs) + mset ?b + mset (full_names c)"
        by simp
      also have "\<dots> = mset (all_members g) + mset (concat cbs) + mset cb + mset (full_names ?n)"
        by (simp add: Cons kc rest)
      finally show ?thesis .
    qed
  qed
next
  case (2 sub g)
  then show ?case by simp
next
  case (3 k c rest sub g)
  from 3(3) obtain sb g1 where
    a: "group_names_rec c [] sub g = Inr (sb, g1)" and
    b: "group_children rest sb g1 = Inr (sub', g')"
    by (auto split: sum.splits prod.splits)
  from 3(2)[OF a refl b] have "mset (all_members g') + mset (concat sub') \<subseteq>#
      (mset (all_members g1) + mset (concat sb)) + mset (children_names rest)" .
  also have "\<dots> \<subseteq># (mset (all_members g) + mset (concat sub) + mset [] + mset (full_names c))
      + mset (children_names rest)"
    using 3(1)[OF a] by simp
  also have "\<dots> = mset (all_members g) + mset (concat sub) + mset (children_names ((k, c) # rest))"
    by simp
  finally show ?case .
qed

lemma trie_group_names_members:
  "trie_group_names t = Inr g \<Longrightarrow> mset (all_members g) \<subseteq># mset (full_names (root t))"
proof -
  assume "trie_group_names t = Inr g"
  then obtain cbs where "group_names_rec (root t) [] [] [] = Inr (cbs, g)"
    by (auto simp: trie_group_names_def split: sum.splits prod.splits)
  from group_names_rec_members(1)[OF this]
  have "mset (all_members g) + mset (concat cbs) \<subseteq># mset (full_names (root t))"
    by (simp add: all_members_def)
  moreover have "mset (all_members g) \<subseteq># mset (all_members g) + mset (concat cbs)"
    by simp
  ultimately show ?thesis
    by (rule subset_mset.order_trans[rotated])
qed

section \<open>The names of a trie built from a list\<close>

lemma distinct_keys_children_iff:
  "distinct_keys_children cs \<longleftrightarrow> (\<forall>(k, c) \<in> set cs. distinct_keys c)"
  by (induction cs) auto

lemma distinct_keys_children_update:
  "distinct_keys_children cs \<Longrightarrow> distinct_keys c \<Longrightarrow>
   distinct_keys_children (AList.update k c cs)"
  by (induction cs) auto

lemma distinct_keys_insert_words:
  "distinct_keys n \<Longrightarrow> distinct_keys (insert_words d words i rest n)"
proof (induction rest arbitrary: i n)
  case Nil
  then show ?case by (cases n) simp
next
  case (Cons wd rest)
  obtain w t f cs where n: "n = WordTrieNode w t f cs" by (cases n)
  define child where "child = (case map_of cs wd of Some c \<Rightarrow> c
      | None \<Rightarrow> WordTrieNode wd (str_join d (take i words)) False [])"
  have "distinct_keys child"
  proof (cases "map_of cs wd")
    case None
    then show ?thesis by (simp add: child_def)
  next
    case (Some c)
    then have "(wd, c) \<in> set cs" by (rule map_of_SomeD)
    then show ?thesis using Cons.prems Some
      by (auto simp: child_def n distinct_keys_children_iff)
  qed
  then have "distinct_keys (insert_words d words (Suc i) rest child)"
    by (rule Cons.IH)
  then show ?case using Cons.prems
    by (simp add: n child_def[symmetric] distinct_update distinct_keys_children_update)
qed

lemma Nil_notin_child_paths: "[] \<notin> set (child_paths cs)"
  by (induction cs) auto

lemma child_paths_update_new:
  "map_of cs k = None \<Longrightarrow>
   mset (child_paths (AList.update k c cs)) =
   mset (child_paths cs) + image_mset ((#) k) (mset (full_paths c))"
  by (induction cs) (auto split: if_splits)

lemma child_paths_update_old:
  "map_of cs k = Some c0 \<Longrightarrow>
   mset (child_paths (AList.update k c cs)) + image_mset ((#) k) (mset (full_paths c0)) =
   mset (child_paths cs) + image_mset ((#) k) (mset (full_paths c))"
  by (induction cs) (auto split: if_splits)

lemma in_child_paths:
  "distinct (map fst cs) \<Longrightarrow>
   k # p \<in> set (child_paths cs) \<longleftrightarrow> (\<exists>c. map_of cs k = Some c \<and> p \<in> set (full_paths c))"
proof (induction cs)
  case Nil
  show ?case by simp
next
  case (Cons a cs)
  obtain k' c' where a: "a = (k', c')" by (cases a)
  show ?case
  proof (cases "k' = k")
    case True
    have "k # p \<notin> set (child_paths cs)"
    proof
      assume "k # p \<in> set (child_paths cs)"
      with Cons have "\<exists>c. map_of cs k = Some c" by auto
      then have "k \<in> fst ` set cs" by (auto dest: map_of_SomeD intro: rev_image_eqI)
      with Cons.prems True show False by (simp add: a)
    qed
    then show ?thesis using True by (auto simp: a)
  next
    case False
    then show ?thesis using Cons by (auto simp: a)
  qed
qed

lemma full_paths_insert_words:
  "distinct_keys n \<Longrightarrow>
   mset (full_paths (insert_words d words i rest n)) =
   (if rest \<in> set (full_paths n) then mset (full_paths n)
    else add_mset rest (mset (full_paths n)))"
proof (induction rest arbitrary: i n)
  case Nil
  obtain w t f cs where n: "n = WordTrieNode w t f cs" by (cases n)
  show ?case by (simp add: n Nil_notin_child_paths)
next
  case (Cons wd rest)
  obtain w t f cs where n: "n = WordTrieNode w t f cs" by (cases n)
  define child where "child = (case map_of cs wd of Some c \<Rightarrow> c
      | None \<Rightarrow> WordTrieNode wd (str_join d (take i words)) False [])"
  define c1 where "c1 = insert_words d words (Suc i) rest child"
  have ins: "insert_words d words i (wd # rest) n = WordTrieNode w t f (AList.update wd c1 cs)"
    by (simp add: n child_def c1_def)
  have dk: "distinct (map fst cs)" and dkc: "distinct_keys_children cs"
    using Cons.prems by (simp_all add: n)
  have mem: "wd # rest \<in> set (full_paths n) \<longleftrightarrow>
             (\<exists>c. map_of cs wd = Some c \<and> rest \<in> set (full_paths c))"
    using in_child_paths[OF dk, of wd rest] by (auto simp: n)
  show ?case
  proof (cases "map_of cs wd")
    case None
    then have ch: "child = WordTrieNode wd (str_join d (take i words)) False []"
      by (simp add: child_def)
    have "mset (full_paths c1) = {#rest#}"
      unfolding c1_def using Cons.IH[of child "Suc i"] by (simp add: ch)
    then have "mset (child_paths (AList.update wd c1 cs)) =
               add_mset (wd # rest) (mset (child_paths cs))"
      by (simp add: child_paths_update_new[OF None])
    then show ?thesis using None mem by (simp add: ins) (simp add: n)
  next
    case (Some c0)
    then have ch: "child = c0" by (simp add: child_def)
    have "(wd, c0) \<in> set cs" using Some by (rule map_of_SomeD)
    then have "distinct_keys c0" using dkc by (auto simp: distinct_keys_children_iff)
    then have ih: "mset (full_paths c1) =
        (if rest \<in> set (full_paths c0) then mset (full_paths c0)
         else add_mset rest (mset (full_paths c0)))"
      unfolding c1_def ch by (rule Cons.IH)
    note upd = child_paths_update_old[OF Some, of c1]
    show ?thesis
    proof (cases "rest \<in> set (full_paths c0)")
      case True
      with ih upd have "mset (child_paths (AList.update wd c1 cs)) = mset (child_paths cs)"
        by simp
      then show ?thesis using True Some mem by (simp add: ins) (simp add: n)
    next
      case False
      with ih upd have "mset (child_paths (AList.update wd c1 cs)) =
          add_mset (wd # rest) (mset (child_paths cs))"
        by simp
      then show ?thesis using False Some mem by (simp add: ins) (simp add: n)
    qed
  qed
qed

lemma full_names_as_paths:
  "path_texts d path n \<Longrightarrow> node_text n = str_join d path \<Longrightarrow>
   full_names n = map (\<lambda>p. str_join d (path @ p)) (full_paths n)"
  "path_texts_children d path cs \<Longrightarrow>
   children_names cs = map (\<lambda>p. str_join d (path @ p)) (child_paths cs)"
proof (induction d path n and d path cs rule: path_texts_path_texts_children.induct)
  case (1 d path w t f cs)
  then show ?case by simp
next
  case (2 d path)
  show ?case by simp
next
  case (3 d path k c rest)
  then show ?case by (simp add: comp_def)
qed

lemma split_scan_nonempty: "split_scan sep acc s \<noteq> []"
  by (induction sep acc s rule: split_scan.induct) auto

lemma str_join_Cons: "xs \<noteq> [] \<Longrightarrow> str_join sep (a # xs) = a @ sep @ str_join sep xs"
  by (cases xs) simp_all

lemma str_join_split_scan: "sep \<noteq> [] \<Longrightarrow> str_join sep (split_scan sep acc s) = acc @ s"
proof (induction sep acc s rule: split_scan.induct)
  case (1 sep acc)
  show ?case by simp
next
  case (2 sep acc c cs)
  show ?case
  proof (cases "take (length sep) (c # cs) = sep")
    case True
    have "str_join sep (split_scan sep acc (c # cs)) =
          acc @ sep @ str_join sep (split_scan sep [] (drop (length sep) (c # cs)))"
      using True 2(3) by (simp add: str_join_Cons split_scan_nonempty del: str_join.simps)
    also have "\<dots> = acc @ sep @ drop (length sep) (c # cs)"
      using 2(1) 2(3) True by simp
    also have "sep @ drop (length sep) (c # cs) = c # cs"
      using append_take_drop_id[of "length sep" "c # cs"] True by simp
    finally show ?thesis .
  next
    case False
    then show ?thesis using 2(2,3) by simp
  qed
qed

lemma mset_insert_distinct:
  assumes "distinct xs"
    and "mset ys = (if x \<in> set xs then mset xs else add_mset x (mset xs))"
  shows "distinct ys \<and> set ys = insert x (set xs)"
proof (cases "x \<in> set xs")
  case True
  with assms(2) have eq: "mset ys = mset xs" by simp
  from mset_eq_setD[OF eq] mset_eq_imp_distinct_iff[OF eq] assms(1) True
  show ?thesis by auto
next
  case False
  with assms(2) have eq: "mset ys = mset (x # xs)" by simp
  from mset_eq_setD[OF eq] mset_eq_imp_distinct_iff[OF eq] assms(1) False
  show ?thesis by auto
qed

text \<open>
  What holds of a trie while names are inserted: keys occur once, the node texts follow
  the paths, and the marked paths are, without repetition, the word lists of the names
  inserted so far.
\<close>

lemma insert_all_paths:
  assumes "insert_all names t = Inr t'"
    and "word_delimiter t \<noteq> []"
    and "distinct_keys (root t)" and "text_invariant t" and "distinct (full_paths (root t))"
  shows "word_delimiter t' = word_delimiter t \<and> distinct_keys (root t') \<and> text_invariant t'
         \<and> distinct (full_paths (root t'))
         \<and> set (full_paths (root t')) =
             set (full_paths (root t)) \<union> split_scan (word_delimiter t) [] ` set names"
  using assms
proof (induction names arbitrary: t)
  case Nil
  then show ?case by simp
next
  case (Cons name names)
  let ?d = "word_delimiter t"
  let ?ws = "split_scan ?d [] name"
  define t1 where "t1 = t\<lparr>root := insert_words ?d ?ws 1 ?ws (root t)\<rparr>"
  have ins: "insert_name name t = Inr t1"
    using Cons.prems(2) by (simp add: insert_name_ok t1_def)
  with Cons.prems(1) have rest: "insert_all names t1 = Inr t'" by simp
  have d1: "word_delimiter t1 = ?d" by (simp add: t1_def)
  have k1: "distinct_keys (root t1)"
    using Cons.prems(3) by (simp add: t1_def distinct_keys_insert_words)
  have i1: "text_invariant t1"
    using Cons.prems(4) ins by (rule text_invariant_insert_name)
  have "mset (full_paths (root t1)) =
        (if ?ws \<in> set (full_paths (root t)) then mset (full_paths (root t))
         else add_mset ?ws (mset (full_paths (root t))))"
    using full_paths_insert_words[OF Cons.prems(3)] by (simp add: t1_def)
  from mset_insert_distinct[OF Cons.prems(5) this]
  have p1: "distinct (full_paths (root t1))"
    and s1: "set (full_paths (root t1)) = insert ?ws (set (full_paths (root t)))"
    by simp_all
  from Cons.IH[OF rest _ k1 i1 p1] Cons.prems(2) d1 s1 show ?case
    by auto
qed

lemma from_names_full_names:
  assumes "from_names names d = Inr t" and "d \<noteq> []"
  shows "distinct (full_names (root t)) \<and> set (full_names (root t)) = set names"
proof -
  let ?sp = "split_scan d []"
  have js: "str_join d (?sp name) = name" for name
    using str_join_split_scan[OF assms(2), of "[]" name] by simp
  have new: "distinct_keys (root (new_trie d))" "text_invariant (new_trie d)"
    "distinct (full_paths (root (new_trie d)))" "word_delimiter (new_trie d) \<noteq> []"
    "full_paths (root (new_trie d)) = []" "word_delimiter (new_trie d) = d"
    using assms(2) by (simp_all add: new_trie_def text_invariant_def)
  from insert_all_paths[OF assms(1)[unfolded from_names_def] new(4) new(1,2,3)]
  have d: "word_delimiter t = d" and inv: "text_invariant t"
    and dp: "distinct (full_paths (root t))"
    and sp: "set (full_paths (root t)) = ?sp ` set names"
    by (simp_all add: new(5,6))
  have fn: "full_names (root t) = map (str_join d) (full_paths (root t))"
    using full_names_as_paths(1)[of d "[]" "root t"] inv by (simp add: text_invariant_def d)
  have "inj_on (str_join d) (set (full_paths (root t)))"
    unfolding sp by (rule inj_onI) (auto simp: js)
  then have "distinct (full_names (root t))"
    using dp by (simp add: fn distinct_map)
  moreover have "set (full_names (root t)) = set names"
    by (simp add: fn sp image_image js)
  ultimately show ?thesis by simp
qed

lemma submultiset_of_distinct:
  assumes "mset xs \<subseteq># mset ys" and "distinct ys"
  shows "distinct xs \<and> set xs \<subseteq> set ys \<and> length xs \<le> card (set ys)"
proof -
  have ys: "count (mset ys) a = (if a \<in> set ys then 1 else 0)" for a
    using assms(2) distinct_count_atmost_1[of ys] by blast
  have sub: "set xs \<subseteq> set ys"
    using set_mset_mono[OF assms(1)] by simp
  have "count (mset xs) a = (if a \<in> set xs then 1 else 0)" for a
  proof (cases "a \<in> set xs")
    case True
    then have "1 \<le> count (mset xs) a" by (simp add: Suc_le_eq)
    moreover have "count (mset xs) a \<le> 1"
    proof -
      have "count (mset xs) a \<le> count (mset ys) a"
        by (rule mset_subset_eq_count[OF assms(1)])
      also have "\<dots> \<le> 1"
        by (simp add: ys)
      finally show ?thesis .
    qed
    ultimately have "count (mset xs) a = 1" by linarith
    then show ?thesis using True by (simp only: if_True)
  next
    case False
    then show ?thesis by (simp add: count_eq_zero_iff)
  qed
  then have "distinct xs" using distinct_count_atmost_1[of xs] by blast
  moreover have "set xs \<subseteq> set ys"
    using set_mset_mono[OF assms(1)] by simp
  moreover have "length xs \<le> card (set ys)"
    using size_mset_mono[OF assms(1)] assms(2) by (simp add: distinct_card)
  ultimately show ?thesis by simp
qed

lemma group_names_members:
  assumes "group_names names d = Inr g" and "d \<noteq> []"
  shows "distinct (all_members g) \<and> set (all_members g) \<subseteq> set names
         \<and> length (all_members g) \<le> card (set names)"
proof -
  from assms(1) obtain t where t: "from_names names d = Inr t" and g: "trie_group_names t = Inr g"
    by (auto simp: group_names_def split: sum.splits)
  from from_names_full_names[OF t assms(2)]
  have "distinct (full_names (root t))" and s: "set (full_names (root t)) = set names"
    by simp_all
  from submultiset_of_distinct[OF trie_group_names_members[OF g] this(1)] s
  show ?thesis by simp
qed

lemma group_names_returns: "\<exists>g. group_names names [c] = Inr g"
proof -
  obtain tr where "from_names names [c] = Inr tr"
    using from_names_ok[of "[c]" names] by auto
  then show ?thesis using trie_group_names_total[of tr] by (simp add: group_names_def)
qed

lemma group_names_drop_later_duplicates:
  "group_names (drop_later_duplicates names) d = group_names names d"
  by (simp add: group_names_def from_names_drop_later_duplicates)

text \<open>
  C1, as the claim states it, fails where a name is given twice: the three names
  \<open>x_y\<close>, \<open>x_y\<close>, \<open>z\<close> give two groups with one member each, two members for three
  input names.
\<close>

theorem coverage_counterexample:
  "group_names [''x_y'', ''x_y'', ''z''] ''_'' = Inr [(''x_y'', [''x_y'']), (''z'', [''z''])]
   \<and> length (all_members [(''x_y'', [''x_y'']), (''z'', [''z''])])
       \<noteq> length [''x_y'', ''x_y'', ''z'']"
  by code_simp

text \<open>
  C1, amended. For every list of names and every one-character delimiter,
  \<open>group_names\<close> returns a mapping in which every member is one of the input names and
  no name is a member twice, in one group or in two; so the number of members over all
  groups is at most the number of different input names.
\<close>

theorem group_names_members_once:
  "\<exists>g. group_names names [c] = Inr g
       \<and> set (all_members g) \<subseteq> set names
       \<and> distinct (all_members g)
       \<and> length (all_members g) \<le> card (set names)"
proof -
  obtain g where g: "group_names names [c] = Inr g"
    using group_names_returns by blast
  from group_names_members[OF g] show ?thesis using g by simp
qed

theorem group_names_members_once_witness:
  "group_names [''x_y'', ''x_y'', ''z'', ''x''] ''_'' = Inr [(''x'', [''x'', ''x_y'']), (''z'', [''z''])]
   \<and> set (all_members [(''x'', [''x'', ''x_y'']), (''z'', [''z''])])
        \<subseteq> set [''x_y'', ''x_y'', ''z'', ''x'']
   \<and> distinct (all_members [(''x'', [''x'', ''x_y'']), (''z'', [''z''])])
   \<and> length (all_members [(''x'', [''x'', ''x_y'']), (''z'', [''z''])])
        \<le> card (set [''x_y'', ''x_y'', ''z'', ''x''])"
proof -
  have e: "group_names [''x_y'', ''x_y'', ''z'', ''x''] ''_'' =
           Inr [(''x'', [''x'', ''x_y'']), (''z'', [''z''])]"
    by code_simp
  from group_names_members_once[of "[''x_y'', ''x_y'', ''z'', ''x'']" "CHR ''_''"] e
  show ?thesis by simp
qed

text \<open>
  C5, as the claim states it, fails: the name \<open>a\<close> given twice is a member of the group
  \<open>a\<close> once.
\<close>

theorem duplicates_counterexample:
  "group_names [''a'', ''a'', ''b''] ''_'' = Inr [(''a'', [''a'']), (''b'', [''b''])]
   \<and> count_list [''a''] ''a'' \<noteq> count_list [''a'', ''a'', ''b''] ''a''"
  by code_simp

text \<open>
  C5, amended. For every list of names, with or without repeated names, and every
  one-character delimiter, \<open>group_names\<close> raises nothing; a repeated name is not
  repeated in the output: the mapping is the one returned for the list without its later
  duplicates, and every name is a member at most once over all groups.
\<close>

theorem group_names_collapses_duplicates:
  "\<exists>g. group_names names [c] = Inr g
       \<and> group_names (drop_later_duplicates names) [c] = Inr g
       \<and> count_list (all_members g) name \<le> 1"
proof -
  obtain g where g: "group_names names [c] = Inr g"
    using group_names_returns by blast
  from group_names_members[OF g] have "distinct (all_members g)" by simp
  then have "count (mset (all_members g)) name \<le> 1"
    by (simp add: distinct_count_atmost_1)
  then have "count_list (all_members g) name \<le> 1"
    by (simp add: count_mset)
  then show ?thesis using g group_names_drop_later_duplicates[of names "[c]"] by simp
qed

theorem group_names_collapses_duplicates_witness:
  "group_names [''a'', ''b'', ''a'', ''a_c''] ''_'' = Inr [(''a'', [''a'', ''a_c'']), (''b'', [''b''])]
   \<and> drop_later_duplicates [''a'', ''b'', ''a'', ''a_c''] = [''a'', ''b'', ''a_c'']
   \<and> group_names [''a'', ''b'', ''a_c''] ''_'' = Inr [(''a'', [''a'', ''a_c'']), (''b'', [''b''])]
   \<and> count_list (all_members [(''a'', [''a'', ''a_c'']), (''b'', [''b''])]) ''a'' \<le> 1"
proof -
  have e: "group_names [''a'', ''b'', ''a'', ''a_c''] ''_'' =
           Inr [(''a'', [''a'', ''a_c'']), (''b'', [''b''])]"
    by code_simp
  have d: "drop_later_duplicates [''a'', ''b'', ''a'', ''a_c''] = [''a'', ''b'', ''a_c'']"
    by code_simp
  from group_names_collapses_duplicates[of "[''a'', ''b'', ''a'', ''a_c'']" "CHR ''_''" "''a''"] e d
  show ?thesis by simp
qed

end
